theory Spec2Isabelle
  imports Main "HOL-Library.Finite_Map"
begin

section \<open>Shell detection of \<^verbatim>\<open>get_mesh_shells\<close>\<close>

text \<open>
  The breadth-first core of \<^verbatim>\<open>get_mesh_shells\<close> (the part after the mesh has been read
  into \<^verbatim>\<open>face_count\<close> and \<^verbatim>\<open>face_connections\<close>, and before the ids are formatted as face
  names). Face ids are Python integers, \<^verbatim>\<open>face_connections\<close> is a dictionary (a finite
  map) from a face id to the list of its connected faces, \<^verbatim>\<open>visited\<close> is a set that is
  only ever tested for membership, \<^verbatim>\<open>queue\<close> and \<^verbatim>\<open>shell\<close> are lists.
\<close>

type_synonym face_connections = "(int, int list) fmap"

text \<open>\<^verbatim>\<open>face_connections.get(current, [])\<close>\<close>

definition neighbors :: "face_connections \<Rightarrow> int \<Rightarrow> int list" where
  "neighbors fc current = (case fmlookup fc current of None \<Rightarrow> [] | Some ns \<Rightarrow> ns)"

text \<open>
  The \<^verbatim>\<open>while queue:\<close> loop. \<^verbatim>\<open>queue.pop(0)\<close> takes the head; a visited id is dropped
  (\<^verbatim>\<open>continue\<close>); otherwise the id is added to \<^verbatim>\<open>visited\<close> and appended to \<^verbatim>\<open>shell\<close>, and
  the inner \<^verbatim>\<open>for n in neighbors\<close> appends, in order, every neighbour that is not in
  \<^verbatim>\<open>visited\<close> (which does not change during that inner loop). The loop returns the two
  variables that outlive it.
\<close>

function bfs_loop :: "face_connections \<Rightarrow> int list \<Rightarrow> int set \<Rightarrow> int list \<Rightarrow> int set \<times> int list" where
  "bfs_loop fc [] visited shell = (visited, shell)"
| "bfs_loop fc (current # queue) visited shell =
     (if current \<in> visited then bfs_loop fc queue visited shell
      else
        let visited' = insert current visited;
            shell' = shell @ [current];
            queue' = queue @ filter (\<lambda>n. n \<notin> visited') (neighbors fc current)
        in bfs_loop fc queue' visited' shell')"
  by pat_completeness auto

termination
proof (relation "measures
    [\<lambda>(fc, queue, visited, shell). card ((set queue \<union> \<Union> (set ` fmran' fc)) - visited),
     \<lambda>(fc, queue, visited, shell). length queue]", goal_cases)
  case 1
  show ?case by simp
next
  case (2 fc current queue visited shell)
  then show ?case by simp
next
  case (3 fc current queue visited shell x xa xb)
  let ?R = "\<Union> (set ` fmran' fc)"
  have nb: "set (neighbors fc current) \<subseteq> ?R"
    by (auto simp: neighbors_def split: option.splits dest: fmran'I[OF sym])
  have fin: "finite ((set (current # queue) \<union> ?R) - visited)"
    by (simp add: fmran'_alt_def)
  have "(set xb \<union> ?R) - x \<subset> (set (current # queue) \<union> ?R) - visited"
    using nb 3 by auto
  then have "card ((set xb \<union> ?R) - x) < card ((set (current # queue) \<union> ?R) - visited)"
    using fin by (rule psubset_card_mono[rotated])
  then show ?case by simp
qed

text \<open>
  The \<^verbatim>\<open>for i in range(face_count)\<close> loop, over the ids still to be looked at. A visited
  \<^verbatim>\<open>i\<close> is skipped; otherwise a new shell is collected by the breadth-first loop from
  \<^verbatim>\<open>queue = [i]\<close> and \<^verbatim>\<open>shell = []\<close>, and appended to \<^verbatim>\<open>shells\<close>.
\<close>

fun shells_loop :: "face_connections \<Rightarrow> int list \<Rightarrow> int set \<Rightarrow> int list list \<Rightarrow> int list list" where
  "shells_loop fc [] visited shells = shells"
| "shells_loop fc (i # rest) visited shells =
     (if i \<in> visited then shells_loop fc rest visited shells
      else
        case bfs_loop fc [i] visited [] of
          (visited', shell) \<Rightarrow> shells_loop fc rest visited' (shells @ [shell]))"

text \<open>
  Lines 36 to 58 of \<^verbatim>\<open>get_mesh_shells\<close>: \<^verbatim>\<open>visited = set()\<close>, \<^verbatim>\<open>shells = []\<close>, and the loop
  over \<^verbatim>\<open>range(face_count)\<close>. \<^verbatim>\<open>face_count\<close> is a counter that starts at 0 and is only
  incremented, hence a natural number. The code has no \<^verbatim>\<open>raise\<close> on this path, so the
  result is the list of shells itself.
\<close>

definition get_mesh_shells_bfs :: "nat \<Rightarrow> face_connections \<Rightarrow> int list list" where
  "get_mesh_shells_bfs face_count fc = shells_loop fc (map int [0..<face_count]) {} []"

text \<open>
  Notions the properties of shell detection are stated with. Face \<open>a\<close> is adjacent to
  \<open>b\<close> when \<open>b\<close> is in the list the code reads for \<open>a\<close>; a path of adjacency edges is the
  reflexive transitive closure of that relation; two faces are in the same shell when
  one of the returned shells holds both.
\<close>

definition adjacent :: "face_connections \<Rightarrow> (int \<times> int) set" where
  "adjacent fc = {(a, b). b \<in> set (neighbors fc a)}"

definition same_shell :: "int list list \<Rightarrow> int \<Rightarrow> int \<Rightarrow> bool" where
  "same_shell shells a b = (\<exists>s \<in> set shells. a \<in> set s \<and> b \<in> set s)"

text \<open>
  The smallest face id of a shell, and what it means for the face \<open>i\<close> to be the
  lowest-numbered face of \<open>range(face_count)\<close> that is in none of the shells found so far.
\<close>

definition shell_min :: "int list \<Rightarrow> int" where
  "shell_min s = Min (set s)"

definition lowest_unvisited :: "nat \<Rightarrow> int list list \<Rightarrow> int \<Rightarrow> bool" where
  "lowest_unvisited face_count found i =
     (0 \<le> i \<and> i < int face_count \<and> i \<notin> set (concat found)
      \<and> (\<forall>j \<in> {0..<i}. j \<in> set (concat found)))"

text \<open>A set of faces is closed when it holds every neighbour of each of its faces.\<close>

definition closed :: "face_connections \<Rightarrow> int set \<Rightarrow> bool" where
  "closed fc V = (\<forall>x \<in> V. set (neighbors fc x) \<subseteq> V)"

section \<open>Material assignment: \<^verbatim>\<open>assign_random_materials_from_list\<close>\<close>

text \<open>
  The function talks to the host through \<^verbatim>\<open>maya.cmds\<close>, which is not part of the
  repository. The commands it calls are parameters of the model: a record of functions
  over a scene type \<open>'s\<close>. Queries read the scene, the others return the changed scene.
  \<^verbatim>\<open>listConnections\<close> returns \<^verbatim>\<open>None\<close> when nothing is connected; \<^verbatim>\<open>None\<close> and the empty list
  are both false in \<^verbatim>\<open>if sgs:\<close> and are the empty list here. The host commands are taken
  to succeed; \<^verbatim>\<open>cmds.error\<close> raises \<^verbatim>\<open>RuntimeError\<close> with the message, \<^verbatim>\<open>cmds.warning\<close> only
  reports.
\<close>

datatype error = RuntimeError string | IndexError

datatype 's outcome = Raised error 's | Returned 's

record 's cmds =
  objExists :: "string \<Rightarrow> 's \<Rightarrow> bool"
  listConnections :: "string \<Rightarrow> 's \<Rightarrow> string list"
  sets_create :: "string \<Rightarrow> 's \<Rightarrow> string \<times> 's"
  connectAttr :: "string \<Rightarrow> string \<Rightarrow> 's \<Rightarrow> 's"
  sets_forceElement :: "string list \<Rightarrow> string \<Rightarrow> 's \<Rightarrow> 's"
  warning :: "string \<Rightarrow> 's \<Rightarrow> 's"

text \<open>
  The \<^verbatim>\<open>for material in material_list\<close> loop (lines 81 to 92), returning the list
  \<^verbatim>\<open>shading_groups\<close> and the scene.
\<close>

fun shading_groups_loop :: "'s cmds \<Rightarrow> string list \<Rightarrow> string list \<Rightarrow> 's \<Rightarrow> string list \<times> 's" where
  "shading_groups_loop h [] shading_groups s = (shading_groups, s)"
| "shading_groups_loop h (material # rest) shading_groups s =
     (if \<not> objExists h material s then
        shading_groups_loop h rest shading_groups
          (warning h (''Material does not exist: '' @ material) s)
      else
        case listConnections h material s of
          sg # _ \<Rightarrow> shading_groups_loop h rest (shading_groups @ [sg]) s
        | [] \<Rightarrow>
            (case sets_create h (material @ ''SG'') s of
               (sg, s1) \<Rightarrow>
                 shading_groups_loop h rest (shading_groups @ [sg])
                   (connectAttr h (material @ ''.outColor'') (sg @ ''.surfaceShader'') s1)))"

text \<open>
  \<^verbatim>\<open>random.choice(seq)\<close> raises \<^verbatim>\<open>IndexError\<close> on an empty sequence and otherwise returns the
  element at a random index below \<^verbatim>\<open>len(seq)\<close>. The random source is a parameter: \<open>r\<close> is
  the number drawn.
\<close>

definition random_choice :: "nat \<Rightarrow> 'a list \<Rightarrow> error + 'a" where
  "random_choice r xs = (if xs = [] then Inl IndexError else Inr (xs ! (r mod length xs)))"

text \<open>
  The \<^verbatim>\<open>for shell_faces in shells\<close> loop (lines 97 to 99); \<open>rnd k\<close> is the \<open>k\<close>-th number
  drawn from the random source.
\<close>

fun assign_loop :: "'s cmds \<Rightarrow> (nat \<Rightarrow> nat) \<Rightarrow> nat \<Rightarrow> string list \<Rightarrow> string list list \<Rightarrow> 's \<Rightarrow> 's outcome" where
  "assign_loop h rnd k shading_groups [] s = Returned s"
| "assign_loop h rnd k shading_groups (shell_faces # rest) s =
     (case random_choice (rnd k) shading_groups of
        Inl e \<Rightarrow> Raised e s
      | Inr sg \<Rightarrow>
          assign_loop h rnd (Suc k) shading_groups rest (sets_forceElement h shell_faces sg s))"

text \<open>
  The whole function. An outcome carries the scene as it is when the function raises or
  returns, so that what a failing call has done to the scene can be stated.
  \<^verbatim>\<open>material_list\<close> is a list of names as the docstring has it; \<^verbatim>\<open>None\<close>, which is false in
  \<^verbatim>\<open>if not material_list\<close> like the empty list, would take the same first branch.
\<close>

definition assign_random_materials_from_list ::
    "'s cmds \<Rightarrow> (nat \<Rightarrow> nat) \<Rightarrow> string list list \<Rightarrow> string list \<Rightarrow> 's \<Rightarrow> 's outcome" where
  "assign_random_materials_from_list h rnd shells material_list s =
     (if material_list = [] then Raised (RuntimeError ''Material list is empty.'') s
      else
        case shading_groups_loop h material_list [] s of
          (shading_groups, s1) \<Rightarrow>
            if shading_groups = [] then
              Raised (RuntimeError ''No available shading groups for assignment.'') s1
            else assign_loop h rnd 0 shading_groups shells s1)"


text \<open>
  A small scene to run the function on: the names of the nodes, the pairs of a material
  and a shading engine connected to it, the pairs of a face and the shading group it was
  forced into, and the warnings reported, each in the order they were made.
\<close>

record scene =
  nodes :: "string list"
  engines :: "(string \<times> string) list"
  members :: "(string \<times> string) list"
  warnings :: "string list"

definition node_of :: "string \<Rightarrow> string" where
  "node_of attr = takeWhile (\<lambda>c. c \<noteq> CHR ''.'') attr"

definition scene_cmds :: "scene cmds" where
  "scene_cmds = \<lparr>
     objExists = (\<lambda>name s. name \<in> set (nodes s)),
     listConnections = (\<lambda>material s. map snd (filter (\<lambda>(m, sg). m = material) (engines s))),
     sets_create = (\<lambda>name s. (name, s\<lparr>nodes := nodes s @ [name]\<rparr>)),
     connectAttr = (\<lambda>src dst s. s\<lparr>engines := engines s @ [(node_of src, node_of dst)]\<rparr>),
     sets_forceElement = (\<lambda>faces sg s. s\<lparr>members := members s @ map (\<lambda>f. (f, sg)) faces\<rparr>),
     warning = (\<lambda>msg s. s\<lparr>warnings := warnings s @ [msg]\<rparr>)\<rparr>"

section \<open>Properties of shell detection\<close>

subsection \<open>The breadth-first loop\<close>

text \<open>
  One run of the breadth-first loop adds a list of distinct, so far unvisited ids to
  \<open>visited\<close> and to \<open>shell\<close>. Everything in the queue ends up visited, every new id is
  reachable from the queue, and the neighbours of every new id are visited at the end.
\<close>

lemma adjacentI: "b \<in> set (neighbors fc a) \<Longrightarrow> (a, b) \<in> adjacent fc"
  by (simp add: adjacent_def)

lemma reach_mono: "A \<subseteq> B \<Longrightarrow> (adjacent fc)\<^sup>* `` A \<subseteq> (adjacent fc)\<^sup>* `` B"
  by blast

lemma bfs_loop_new:
  "\<exists>new. bfs_loop fc queue visited shell = (visited \<union> set new, shell @ new)
     \<and> distinct new \<and> set new \<inter> visited = {}
     \<and> set queue \<subseteq> visited \<union> set new
     \<and> set new \<subseteq> (adjacent fc)\<^sup>* `` set queue
     \<and> (\<forall>x \<in> set new. set (neighbors fc x) \<subseteq> visited \<union> set new)"
proof (induction fc queue visited shell rule: bfs_loop.induct)
  case (1 fc visited shell)
  show ?case by simp
next
  case (2 fc current queue visited shell)
  show ?case
  proof (cases "current \<in> visited")
    case True
    with 2(1) obtain new where n:
      "bfs_loop fc queue visited shell = (visited \<union> set new, shell @ new)"
      "distinct new" "set new \<inter> visited = {}" "set queue \<subseteq> visited \<union> set new"
      "set new \<subseteq> (adjacent fc)\<^sup>* `` set queue"
      "\<forall>x \<in> set new. set (neighbors fc x) \<subseteq> visited \<union> set new"
      by blast
    have "set new \<subseteq> (adjacent fc)\<^sup>* `` set (current # queue)"
      using n(5) by auto
    with True n show ?thesis by auto
  next
    case False
    let ?v = "insert current visited"
    let ?q = "queue @ filter (\<lambda>n. n \<notin> ?v) (neighbors fc current)"
    from 2(2)[OF False refl refl refl] obtain new where n:
      "bfs_loop fc ?q ?v (shell @ [current]) = (?v \<union> set new, (shell @ [current]) @ new)"
      "distinct new" "set new \<inter> ?v = {}" "set ?q \<subseteq> ?v \<union> set new"
      "set new \<subseteq> (adjacent fc)\<^sup>* `` set ?q"
      "\<forall>x \<in> set new. set (neighbors fc x) \<subseteq> ?v \<union> set new"
      by blast
    have r: "set new \<subseteq> (adjacent fc)\<^sup>* `` set (current # queue)"
    proof
      fix y assume "y \<in> set new"
      with n(5) obtain x where x: "x \<in> set ?q" "(x, y) \<in> (adjacent fc)\<^sup>*" by blast
      show "y \<in> (adjacent fc)\<^sup>* `` set (current # queue)"
      proof (cases "x \<in> set queue")
        case True
        with x(2) show ?thesis by auto
      next
        case False
        with x(1) have "(current, x) \<in> adjacent fc" by (auto simp: adjacent_def)
        then have "(current, y) \<in> (adjacent fc)\<^sup>*" using x(2) by (rule converse_rtrancl_into_rtrancl)
        then show ?thesis by auto
      qed
    qed
    have c: "set (neighbors fc current) \<subseteq> visited \<union> set (current # new)"
      using n(4) by auto
    have "bfs_loop fc (current # queue) visited shell
        = (visited \<union> set (current # new), shell @ current # new)"
      using False n(1) by simp
    moreover have "distinct (current # new)" using n(2,3) by auto
    moreover have "set (current # new) \<inter> visited = {}" using False n(3) by auto
    moreover have "set (current # queue) \<subseteq> visited \<union> set (current # new)" using n(4) by auto
    moreover have "\<forall>x \<in> set (current # new). set (neighbors fc x) \<subseteq> visited \<union> set (current # new)"
      using c n(6) by auto
    moreover have "set (current # new) \<subseteq> (adjacent fc)\<^sup>* `` set (current # queue)"
      using r by auto
    ultimately show ?thesis by (intro exI[of _ "current # new"] conjI)
  qed
qed

subsection \<open>The loop over the face ids\<close>

text \<open>The shells found are appended to the ones already there.\<close>

lemma shells_loop_acc:
  "shells_loop fc ids visited shells = shells @ shells_loop fc ids visited []"
proof (induction ids arbitrary: visited shells)
  case Nil
  show ?case by simp
next
  case (Cons i rest)
  show ?case
  proof (cases "i \<in> visited")
    case True
    then show ?thesis using Cons[of visited shells] by simp
  next
    case False
    obtain v' shell where b: "bfs_loop fc [i] visited [] = (v', shell)"
      by (cases "bfs_loop fc [i] visited []")
    have "shells_loop fc rest v' (shells @ [shell]) = (shells @ [shell]) @ shells_loop fc rest v' []"
      by (rule Cons)
    moreover have "shells_loop fc rest v' [shell] = [shell] @ shells_loop fc rest v' []"
      by (rule Cons)
    ultimately show ?thesis using False b by simp
  qed
qed

text \<open>The shell collected from an unvisited face starts with that face.\<close>

lemma bfs_loop_start:
  assumes "i \<notin> visited"
  shows "\<exists>new. bfs_loop fc [i] visited [] = (visited \<union> set (i # new), i # new)
     \<and> distinct (i # new) \<and> set (i # new) \<inter> visited = {}
     \<and> set (i # new) \<subseteq> (adjacent fc)\<^sup>* `` {i}
     \<and> (\<forall>x \<in> set (i # new). set (neighbors fc x) \<subseteq> visited \<union> set (i # new))"
proof -
  obtain new where n:
    "bfs_loop fc [i] visited [] = (visited \<union> set new, [] @ new)"
    "distinct new" "set new \<inter> visited = {}" "set [i] \<subseteq> visited \<union> set new"
    "set new \<subseteq> (adjacent fc)\<^sup>* `` set [i]"
    "\<forall>x \<in> set new. set (neighbors fc x) \<subseteq> visited \<union> set new"
    using bfs_loop_new[of fc "[i]" visited "[]"] by blast
  let ?v = "insert i visited"
  let ?q = "[] @ filter (\<lambda>n. n \<notin> ?v) (neighbors fc i)"
  obtain new' where n': "bfs_loop fc ?q ?v ([] @ [i]) = (?v \<union> set new', ([] @ [i]) @ new')"
    using bfs_loop_new[of fc ?q ?v "[] @ [i]"] by blast
  have "bfs_loop fc [i] visited [] = bfs_loop fc ?q ?v ([] @ [i])"
    using assms by simp
  with n(1) n' have "new = i # new'" by simp
  with n show ?thesis by auto
qed

lemma shells_loop_step:
  assumes "i \<notin> visited" and "bfs_loop fc [i] visited [] = (v', shell)"
  shows "shells_loop fc (i # rest) visited [] = shell # shells_loop fc rest v' []"
  using assms shells_loop_acc[of fc rest v' "[shell]"] by simp

lemma closed_reach: "(x, y) \<in> (adjacent fc)\<^sup>* \<Longrightarrow> closed fc V \<Longrightarrow> x \<in> V \<Longrightarrow> y \<in> V"
  by (induction rule: rtrancl_induct) (auto simp: closed_def adjacent_def)

lemma shells_loop_inv:
  "distinct (concat (shells_loop fc ids visited []))
   \<and> set (concat (shells_loop fc ids visited [])) \<inter> visited = {}
   \<and> set ids \<subseteq> visited \<union> set (concat (shells_loop fc ids visited []))
   \<and> set (concat (shells_loop fc ids visited [])) \<subseteq> (adjacent fc)\<^sup>* `` set ids
   \<and> [] \<notin> set (shells_loop fc ids visited [])
   \<and> (closed fc visited \<longrightarrow> closed fc (visited \<union> set (concat (shells_loop fc ids visited []))))"
proof (induction ids arbitrary: visited)
  case Nil
  show ?case by simp
next
  case (Cons i rest)
  show ?case
  proof (cases "i \<in> visited")
    case True
    have "set (concat (shells_loop fc rest visited [])) \<subseteq> (adjacent fc)\<^sup>* `` set (i # rest)"
      using Cons[of visited] by auto
    then show ?thesis using True Cons[of visited] by simp
  next
    case False
    from bfs_loop_start[OF False, of fc] obtain new where n:
      "bfs_loop fc [i] visited [] = (visited \<union> set (i # new), i # new)"
      "distinct (i # new)" "set (i # new) \<inter> visited = {}"
      "set (i # new) \<subseteq> (adjacent fc)\<^sup>* `` {i}"
      "\<forall>x \<in> set (i # new). set (neighbors fc x) \<subseteq> visited \<union> set (i # new)"
      by blast
    let ?v = "visited \<union> set (i # new)"
    let ?P = "shells_loop fc rest ?v []"
    have eq: "shells_loop fc (i # rest) visited [] = (i # new) # ?P"
      using False n(1) by (rule shells_loop_step)
    note ih = Cons[of ?v]
    have d: "distinct (concat ((i # new) # ?P))"
      using ih n(2) by auto
    have v: "set (concat ((i # new) # ?P)) \<inter> visited = {}"
      using ih n(3) by auto
    have c: "set (i # rest) \<subseteq> visited \<union> set (concat ((i # new) # ?P))"
      using ih by auto
    have r: "set (concat ((i # new) # ?P)) \<subseteq> (adjacent fc)\<^sup>* `` set (i # rest)"
    proof -
      have "set (concat ?P) \<subseteq> (adjacent fc)\<^sup>* `` set rest" using ih by simp
      then have "set (concat ?P) \<subseteq> (adjacent fc)\<^sup>* `` set (i # rest)" by auto
      moreover have "set (i # new) \<subseteq> (adjacent fc)\<^sup>* `` set (i # rest)" using n(4) by auto
      ultimately show ?thesis by simp
    qed
    have e: "[] \<notin> set ((i # new) # ?P)" using ih by simp
    have cl: "closed fc visited \<longrightarrow> closed fc (visited \<union> set (concat ((i # new) # ?P)))"
    proof
      assume "closed fc visited"
      then have "closed fc ?v" using n(5) unfolding closed_def by blast
      then have "closed fc (?v \<union> set (concat ?P))" using ih by simp
      moreover have "?v \<union> set (concat ?P) = visited \<union> set (concat ((i # new) # ?P))" by auto
      ultimately show "closed fc (visited \<union> set (concat ((i # new) # ?P)))" by simp
    qed
    show ?thesis unfolding eq using d v c r e cl by (intro conjI)
  qed
qed


lemma reach_range: "(adjacent fc)\<^sup>* `` A \<subseteq> A \<union> Range (adjacent fc)"
proof
  fix y assume "y \<in> (adjacent fc)\<^sup>* `` A"
  then obtain x where "x \<in> A" "(x, y) \<in> (adjacent fc)\<^sup>*" by blast
  from this(2,1) show "y \<in> A \<union> Range (adjacent fc)"
    by (cases rule: rtranclE) auto
qed

lemma set_range_ids: "set (map int [0..<n]) = {0..<int n}"
proof
  show "set (map int [0..<n]) \<subseteq> {0..<int n}" by auto
  show "{0..<int n} \<subseteq> set (map int [0..<n])"
  proof
    fix x assume "x \<in> {0..<int n}"
    then have "x = int (nat x)" "nat x < n" by auto
    then show "x \<in> set (map int [0..<n])" by (metis atLeast0LessThan image_eqI lessThan_iff set_map set_upt)
  qed
qed

lemma sorted_range_ids: "sorted_wrt (<) (map int [0..<n])"
  by (simp add: sorted_wrt_map sorted_wrt_iff_nth_less)

lemma distinct_concat_nth:
  "distinct (concat xs) \<Longrightarrow> i < length xs \<Longrightarrow> j < length xs \<Longrightarrow>
     x \<in> set (xs ! i) \<Longrightarrow> x \<in> set (xs ! j) \<Longrightarrow> i = j"
proof (induction xs arbitrary: i j)
  case Nil
  then show ?case by simp
next
  case (Cons a xs)
  show ?case
  proof (cases i)
    case 0
    show ?thesis
    proof (cases j)
      case 0
      with \<open>i = 0\<close> show ?thesis by simp
    next
      case (Suc j')
      with Cons.prems have "x \<in> set (concat xs)" by auto
      with Cons.prems 0 show ?thesis by auto
    qed
  next
    case (Suc i')
    show ?thesis
    proof (cases j)
      case 0
      from Suc Cons.prems have "x \<in> set (concat xs)" by auto
      with Cons.prems 0 show ?thesis by auto
    next
      case (Suc j')
      with \<open>i = Suc i'\<close> Cons.prems Cons.IH[of i' j'] show ?thesis by auto
    qed
  qed
qed

lemma shells_inv:
  "distinct (concat (get_mesh_shells_bfs n fc))"
  "{0..<int n} \<subseteq> set (concat (get_mesh_shells_bfs n fc))"
  "set (concat (get_mesh_shells_bfs n fc)) \<subseteq> {0..<int n} \<union> Range (adjacent fc)"
  "[] \<notin> set (get_mesh_shells_bfs n fc)"
  "closed fc (set (concat (get_mesh_shells_bfs n fc)))"
proof -
  note inv = shells_loop_inv[of fc "map int [0..<n]" "{}"]
  show "distinct (concat (get_mesh_shells_bfs n fc))"
    using inv by (simp add: get_mesh_shells_bfs_def)
  show "{0..<int n} \<subseteq> set (concat (get_mesh_shells_bfs n fc))"
    using inv unfolding set_range_ids by (simp add: get_mesh_shells_bfs_def)
  show "set (concat (get_mesh_shells_bfs n fc)) \<subseteq> {0..<int n} \<union> Range (adjacent fc)"
    using inv reach_range[of fc "{0..<int n}"] unfolding set_range_ids
    by (simp add: get_mesh_shells_bfs_def) blast
  show "[] \<notin> set (get_mesh_shells_bfs n fc)"
    using inv by (simp add: get_mesh_shells_bfs_def)
  have "closed fc {}" by (simp add: closed_def)
  then show "closed fc (set (concat (get_mesh_shells_bfs n fc)))"
    using inv by (simp add: get_mesh_shells_bfs_def)
qed

subsection \<open>Partition\<close>

text \<open>
  C1. When every id in the adjacency lists lies in \<open>[0, face_count)\<close>, the shells are a
  partition of \<open>{0, ..., face_count - 1}\<close>: no id occurs twice in the concatenation of the
  shells, the ids that occur are exactly those of the range, and each id of the range is
  in the shell at exactly one position of the result.
\<close>

theorem shells_partition:
  assumes "Range (adjacent fc) \<subseteq> {0..<int face_count}"
  shows "distinct (concat (get_mesh_shells_bfs face_count fc))
       \<and> set (concat (get_mesh_shells_bfs face_count fc)) = {0..<int face_count}
       \<and> (\<forall>f \<in> {0..<int face_count}.
            \<exists>!j. j < length (get_mesh_shells_bfs face_count fc)
                  \<and> f \<in> set (get_mesh_shells_bfs face_count fc ! j))"
proof -
  let ?S = "get_mesh_shells_bfs face_count fc"
  have d: "distinct (concat ?S)" by (rule shells_inv)
  have s: "set (concat ?S) = {0..<int face_count}"
    using shells_inv(2,3)[of face_count fc] assms by blast
  have "\<exists>!j. j < length ?S \<and> f \<in> set (?S ! j)" if "f \<in> {0..<int face_count}" for f
  proof -
    from that s have "f \<in> set (concat ?S)" by simp
    then obtain sh where "sh \<in> set ?S" "f \<in> set sh" by auto
    then obtain j where "j < length ?S" "f \<in> set (?S ! j)" by (auto simp: in_set_conv_nth)
    then show ?thesis using distinct_concat_nth[OF d] by blast
  qed
  with d s show ?thesis by blast
qed

theorem shells_partition_witness:
  "Range (adjacent (fmap_of_list [(0, [1]), (1, [0]), (2, [])])) \<subseteq> {0..<int 3}
   \<and> distinct (concat (get_mesh_shells_bfs 3 (fmap_of_list [(0, [1]), (1, [0]), (2, [])])))
   \<and> set (concat (get_mesh_shells_bfs 3 (fmap_of_list [(0, [1]), (1, [0]), (2, [])]))) = {0..<int 3}"
proof -
  have h: "Range (adjacent (fmap_of_list [(0, [1]), (1, [0]), (2, [])])) \<subseteq> {0..<int 3}"
    by (auto simp: adjacent_def neighbors_def fmlookup_of_list split: if_splits)
  show ?thesis using h shells_partition[OF h] by blast
qed

subsection \<open>Connectivity\<close>

text \<open>
  With a symmetric adjacency relation, and the visited set closed, every shell the loop
  finds is the set of faces reachable from one face.
\<close>

lemma shells_loop_components:
  assumes "sym (adjacent fc)"
  shows "closed fc visited \<Longrightarrow>
     \<forall>s \<in> set (shells_loop fc ids visited []). \<exists>i. set s = (adjacent fc)\<^sup>* `` {i}"
proof (induction ids arbitrary: visited)
  case Nil
  show ?case by simp
next
  case (Cons i rest)
  show ?case
  proof (cases "i \<in> visited")
    case True
    then show ?thesis using Cons by simp
  next
    case False
    from bfs_loop_start[OF False, of fc] obtain new where n:
      "bfs_loop fc [i] visited [] = (visited \<union> set (i # new), i # new)"
      "distinct (i # new)" "set (i # new) \<inter> visited = {}"
      "set (i # new) \<subseteq> (adjacent fc)\<^sup>* `` {i}"
      "\<forall>x \<in> set (i # new). set (neighbors fc x) \<subseteq> visited \<union> set (i # new)"
      by blast
    let ?v = "visited \<union> set (i # new)"
    have eq: "shells_loop fc (i # rest) visited [] = (i # new) # shells_loop fc rest ?v []"
      using False n(1) by (rule shells_loop_step)
    have cl: "closed fc ?v"
      using Cons.prems n(5) unfolding closed_def by blast
    have "(adjacent fc)\<^sup>* `` {i} \<subseteq> set (i # new)"
    proof
      fix y assume "y \<in> (adjacent fc)\<^sup>* `` {i}"
      then have r: "(i, y) \<in> (adjacent fc)\<^sup>*" by simp
      then have "y \<in> ?v" using cl by (rule closed_reach) simp
      moreover have "y \<notin> visited"
      proof
        assume "y \<in> visited"
        have "(y, i) \<in> (adjacent fc)\<^sup>*"
          using r sym_rtrancl[OF assms] by (meson symD)
        then have "i \<in> visited" using Cons.prems \<open>y \<in> visited\<close> by (rule closed_reach)
        with False show False by simp
      qed
      ultimately show "y \<in> set (i # new)" by blast
    qed
    with n(4) have "set (i # new) = (adjacent fc)\<^sup>* `` {i}" by blast
    then show ?thesis unfolding eq using Cons.IH[OF cl] by auto
  qed
qed

text \<open>
  C2. When the adjacency relation is symmetric, two faces \<open>a\<close> and \<open>b\<close> of
  \<open>[0, face_count)\<close> are in the same shell if and only if a path of adjacency edges leads
  from \<open>a\<close> to \<open>b\<close>.
\<close>

theorem same_shell_iff_path:
  assumes "sym (adjacent fc)" and "0 \<le> a" and "a < int face_count"
    and "0 \<le> b" and "b < int face_count"
  shows "same_shell (get_mesh_shells_bfs face_count fc) a b \<longleftrightarrow> (a, b) \<in> (adjacent fc)\<^sup>*"
proof -
  let ?S = "get_mesh_shells_bfs face_count fc"
  have "closed fc {}" by (simp add: closed_def)
  then have comp: "\<forall>s \<in> set ?S. \<exists>i. set s = (adjacent fc)\<^sup>* `` {i}"
    unfolding get_mesh_shells_bfs_def by (rule shells_loop_components[OF assms(1)])
  have symr: "sym ((adjacent fc)\<^sup>*)" using assms(1) by (rule sym_rtrancl)
  show ?thesis
  proof
    assume "same_shell ?S a b"
    then obtain s where s: "s \<in> set ?S" "a \<in> set s" "b \<in> set s"
      by (auto simp: same_shell_def)
    with comp obtain i where "set s = (adjacent fc)\<^sup>* `` {i}" by blast
    with s have "(i, a) \<in> (adjacent fc)\<^sup>*" "(i, b) \<in> (adjacent fc)\<^sup>*" by auto
    from this(1) have "(a, i) \<in> (adjacent fc)\<^sup>*" using symr by (meson symD)
    then show "(a, b) \<in> (adjacent fc)\<^sup>*" using \<open>(i, b) \<in> (adjacent fc)\<^sup>*\<close> by (rule rtrancl_trans)
  next
    assume p: "(a, b) \<in> (adjacent fc)\<^sup>*"
    have "a \<in> set (concat ?S)" using shells_inv(2)[of face_count fc] assms(2,3) by auto
    then obtain s where s: "s \<in> set ?S" "a \<in> set s" by auto
    with comp obtain i where i: "set s = (adjacent fc)\<^sup>* `` {i}" by blast
    with s have "(i, a) \<in> (adjacent fc)\<^sup>*" by auto
    then have "(i, b) \<in> (adjacent fc)\<^sup>*" using p by (rule rtrancl_trans)
    with i have "b \<in> set s" by auto
    with s show "same_shell ?S a b" by (auto simp: same_shell_def)
  qed
qed

theorem same_shell_iff_path_witness:
  "sym (adjacent (fmap_of_list [(0, [1]), (1, [0]), (2, [])]))
   \<and> same_shell (get_mesh_shells_bfs 3 (fmap_of_list [(0, [1]), (1, [0]), (2, [])])) 0 1
   \<and> (0, 1) \<in> (adjacent (fmap_of_list [(0, [1]), (1, [0]), (2, [])]))\<^sup>*
   \<and> \<not> same_shell (get_mesh_shells_bfs 3 (fmap_of_list [(0, [1]), (1, [0]), (2, [])])) 0 2
   \<and> (0, 2) \<notin> (adjacent (fmap_of_list [(0, [1]), (1, [0]), (2, [])]))\<^sup>*"
proof -
  let ?fc = "fmap_of_list [(0, [1]), (1, [0]), (2, [])] :: face_connections"
  have h: "sym (adjacent ?fc)"
    by (auto simp: sym_def adjacent_def neighbors_def fmlookup_of_list split: if_splits)
  have S: "get_mesh_shells_bfs 3 ?fc = [[0, 1], [2]]"
    by (simp add: get_mesh_shells_bfs_def neighbors_def fmlookup_of_list upt_rec)
  have a: "same_shell (get_mesh_shells_bfs 3 ?fc) 0 1"
    unfolding S by (simp add: same_shell_def)
  have b: "\<not> same_shell (get_mesh_shells_bfs 3 ?fc) 0 2"
    unfolding S by (simp add: same_shell_def)
  show ?thesis
    using h a b same_shell_iff_path[OF h, of 0 3 1] same_shell_iff_path[OF h, of 0 3 2]
    by simp
qed

subsection \<open>Order of the shells\<close>

text \<open>
  When the ids the loop runs over are strictly ascending, every shell found starts
  with one of them, which is in no earlier shell, while all smaller ones are.
\<close>

lemma shells_loop_starts:
  "sorted_wrt (<) ids \<Longrightarrow> shells_loop fc ids visited [] = pre @ s # post \<Longrightarrow>
     s \<noteq> [] \<and> hd s \<in> set ids \<and> hd s \<notin> visited \<union> set (concat pre)
     \<and> (\<forall>x \<in> set ids. x < hd s \<longrightarrow> x \<in> visited \<union> set (concat pre))"
proof (induction ids arbitrary: visited pre)
  case Nil
  then show ?case by simp
next
  case (Cons i rest)
  from Cons.prems(1) have sr: "sorted_wrt (<) rest" and lt: "\<forall>x \<in> set rest. i < x" by auto
  show ?case
  proof (cases "i \<in> visited")
    case True
    with Cons.prems(2) have "shells_loop fc rest visited [] = pre @ s # post" by simp
    from Cons.IH[OF sr this] True show ?thesis by auto
  next
    case False
    from bfs_loop_start[OF False, of fc] obtain new where n:
      "bfs_loop fc [i] visited [] = (visited \<union> set (i # new), i # new)"
      by blast
    let ?v = "visited \<union> set (i # new)"
    have eq: "shells_loop fc (i # rest) visited [] = (i # new) # shells_loop fc rest ?v []"
      using False n(1) by (rule shells_loop_step)
    show ?thesis
    proof (cases pre)
      case Nil
      with eq Cons.prems(2) have "s = i # new" by simp
      with Nil False lt show ?thesis by auto
    next
      case (Cons p pre')
      from Cons.prems(2) have "(i # new) # shells_loop fc rest ?v [] = p # pre' @ s # post"
        unfolding eq Cons by (simp only: append_Cons)
      then have "i # new = p \<and> shells_loop fc rest ?v [] = pre' @ s # post"
        by (rule list.inject[THEN iffD1])
      then have p: "p = i # new"
        and r: "shells_loop fc rest ?v [] = pre' @ s # post" by blast+
      from Cons.IH[OF sr r] have ih: "s \<noteq> []" "hd s \<in> set rest"
        "hd s \<notin> ?v \<union> set (concat pre')"
        "\<forall>x \<in> set rest. x < hd s \<longrightarrow> x \<in> ?v \<union> set (concat pre')" by auto
      have u: "?v \<union> set (concat pre') = visited \<union> set (concat pre)"
        using Cons p by auto
      show ?thesis using ih unfolding u using Cons p by auto
    qed
  qed
qed

lemma shells_loop_heads:
  "sorted_wrt (<) ids \<Longrightarrow>
     sorted_wrt (<) (map hd (shells_loop fc ids visited []))
     \<and> hd ` set (shells_loop fc ids visited []) \<subseteq> set ids"
proof (induction ids arbitrary: visited)
  case Nil
  show ?case by simp
next
  case (Cons i rest)
  from Cons.prems have sr: "sorted_wrt (<) rest" and lt: "\<forall>x \<in> set rest. i < x" by auto
  show ?case
  proof (cases "i \<in> visited")
    case True
    with Cons.IH[OF sr, of visited] show ?thesis by auto
  next
    case False
    from bfs_loop_start[OF False, of fc] obtain new where n:
      "bfs_loop fc [i] visited [] = (visited \<union> set (i # new), i # new)"
      by blast
    let ?v = "visited \<union> set (i # new)"
    have eq: "shells_loop fc (i # rest) visited [] = (i # new) # shells_loop fc rest ?v []"
      using False n(1) by (rule shells_loop_step)
    from Cons.IH[OF sr, of ?v] lt show ?thesis unfolding eq by auto
  qed
qed

lemma start_is_min:
  assumes nonneg: "\<forall>n \<in> Range (adjacent fc). 0 \<le> n"
    and dec: "get_mesh_shells_bfs face_count fc = pre @ s # post"
  shows "shell_min s = hd s"
proof -
  let ?ids = "map int [0..<face_count]"
  have st: "s \<noteq> []" "hd s \<in> set ?ids" "hd s \<notin> set (concat pre)"
    "\<forall>x \<in> set ?ids. x < hd s \<longrightarrow> x \<in> set (concat pre)"
    using shells_loop_starts[OF sorted_range_ids, of fc face_count "{}" pre s post] dec
    by (auto simp: get_mesh_shells_bfs_def)
  have d: "distinct (concat (pre @ s # post))"
    using shells_inv(1)[of face_count fc] dec by simp
  have m: "set (concat (pre @ s # post)) \<subseteq> {0..<int face_count} \<union> Range (adjacent fc)"
    using shells_inv(3)[of face_count fc] dec by simp
  have "hd s \<le> e" if e: "e \<in> set s" for e
  proof (rule ccontr)
    assume "\<not> hd s \<le> e"
    then have lt: "e < hd s" by simp
    from e m have "e \<in> {0..<int face_count} \<union> Range (adjacent fc)" by auto
    with nonneg have "0 \<le> e" by auto
    moreover from st(2) have "hd s < int face_count" by auto
    ultimately have "e \<in> set ?ids" using lt unfolding set_range_ids by simp
    with st(4) lt have "e \<in> set (concat pre)" by blast
    with d e show False by auto
  qed
  moreover have "hd s \<in> set s" using st(1) by simp
  ultimately show ?thesis unfolding shell_min_def by (intro Min_eqI) auto
qed

text \<open>
  C3. The ids in \<^verbatim>\<open>face_connections\<close> are indices of mesh faces (lines 29 to 32 fill it from
  \<^verbatim>\<open>index()\<close> and \<^verbatim>\<open>getConnectedFaces\<close>), so none is negative. Each shell starts with the
  lowest-numbered face of \<open>range(face_count)\<close> that is in no earlier shell, and these
  start faces are strictly ascending; this part needs nothing of the adjacency lists.
  With no negative id in the adjacency lists the start face is the smallest id of its
  shell, so the shells are in strictly ascending order of their smallest id.
\<close>

theorem shells_ordered:
  "(\<forall>pre s post. get_mesh_shells_bfs face_count fc = pre @ s # post \<longrightarrow>
       s \<noteq> [] \<and> lowest_unvisited face_count pre (hd s))
   \<and> sorted_wrt (<) (map hd (get_mesh_shells_bfs face_count fc))
   \<and> ((\<forall>n \<in> Range (adjacent fc). 0 \<le> n) \<longrightarrow>
       (\<forall>s \<in> set (get_mesh_shells_bfs face_count fc). shell_min s = hd s)
       \<and> sorted_wrt (<) (map shell_min (get_mesh_shells_bfs face_count fc)))"
proof (intro conjI allI impI)
  fix pre s post
  assume dec: "get_mesh_shells_bfs face_count fc = pre @ s # post"
  let ?ids = "map int [0..<face_count]"
  have st: "s \<noteq> []" "hd s \<in> set ?ids" "hd s \<notin> set (concat pre)"
    "\<forall>x \<in> set ?ids. x < hd s \<longrightarrow> x \<in> set (concat pre)"
    using shells_loop_starts[OF sorted_range_ids, of fc face_count "{}" pre s post] dec
    by (auto simp: get_mesh_shells_bfs_def)
  show "s \<noteq> []" by (rule st)
  show "lowest_unvisited face_count pre (hd s)"
    using st(2,3,4) unfolding set_range_ids lowest_unvisited_def by auto
next
  show "sorted_wrt (<) (map hd (get_mesh_shells_bfs face_count fc))"
    using shells_loop_heads[OF sorted_range_ids, of fc face_count "{}"]
    by (simp add: get_mesh_shells_bfs_def)
next
  assume nonneg: "\<forall>n \<in> Range (adjacent fc). 0 \<le> n"
  show m: "\<forall>s \<in> set (get_mesh_shells_bfs face_count fc). shell_min s = hd s"
  proof
    fix s assume "s \<in> set (get_mesh_shells_bfs face_count fc)"
    then obtain pre post where "get_mesh_shells_bfs face_count fc = pre @ s # post"
      by (auto simp: in_set_conv_decomp)
    with nonneg show "shell_min s = hd s" by (rule start_is_min)
  qed
  then have e: "map shell_min (get_mesh_shells_bfs face_count fc)
      = map hd (get_mesh_shells_bfs face_count fc)" by (intro map_cong) auto
  have "sorted_wrt (<) (map hd (get_mesh_shells_bfs face_count fc))"
    using shells_loop_heads[OF sorted_range_ids, of fc face_count "{}"]
    by (simp add: get_mesh_shells_bfs_def)
  then show "sorted_wrt (<) (map shell_min (get_mesh_shells_bfs face_count fc))"
    unfolding e .
qed

theorem shells_ordered_witness:
  "Range (adjacent (fmap_of_list [(0, [1]), (1, [0]), (2, [])])) \<subseteq> {0..}
   \<and> get_mesh_shells_bfs 3 (fmap_of_list [(0, [1]), (1, [0]), (2, [])]) = [[0, 1]] @ [2] # []
   \<and> (0::int) \<le> 2 \<and> (2::int) < int 3 \<and> 2 \<notin> set (concat [[0, 1 :: int]])
   \<and> {0..<2} \<subseteq> set (concat [[0, 1 :: int]])
   \<and> shell_min [2] = 2
   \<and> sorted_wrt (<) (map shell_min (get_mesh_shells_bfs 3 (fmap_of_list [(0, [1]), (1, [0]), (2, [])])))"
proof -
  let ?fc = "fmap_of_list [(0, [1]), (1, [0]), (2, [])] :: face_connections"
  have h: "\<forall>n \<in> Range (adjacent ?fc). 0 \<le> n"
    by (auto simp: adjacent_def neighbors_def fmlookup_of_list split: if_splits)
  have S: "get_mesh_shells_bfs 3 ?fc = [[0, 1]] @ [2] # []"
    by (simp add: get_mesh_shells_bfs_def neighbors_def fmlookup_of_list upt_rec)
  have l: "lowest_unvisited 3 [[0, 1]] (hd [2])"
    using shells_ordered[of 3 ?fc] S by blast
  have m: "shell_min [2] = hd [2]"
    using shells_ordered[of 3 ?fc] h S by simp
  have o: "sorted_wrt (<) (map shell_min (get_mesh_shells_bfs 3 ?fc))"
    using shells_ordered[of 3 ?fc] h by blast
  have r: "Range (adjacent ?fc) \<subseteq> {0..}" using h by auto
  show ?thesis using r S o m l unfolding lowest_unvisited_def by auto
qed

subsection \<open>Ids out of range\<close>

text \<open>
  C4, as the code has it. Nothing in the code checks the adjacency lists against
  \<open>face_count\<close> and no path raises: every id in the adjacency list of a face of
  \<open>[0, face_count)\<close>, in range or not, is in exactly one of the returned shells.
\<close>

theorem referenced_ids_in_shells:
  assumes "0 \<le> i" and "i < int face_count" and "n \<in> set (neighbors fc i)"
  shows "\<exists>!j. j < length (get_mesh_shells_bfs face_count fc)
              \<and> n \<in> set (get_mesh_shells_bfs face_count fc ! j)"
proof -
  let ?S = "get_mesh_shells_bfs face_count fc"
  have "i \<in> set (concat ?S)" using shells_inv(2)[of face_count fc] assms(1,2) by auto
  then have "n \<in> set (concat ?S)"
    using shells_inv(5)[of fc face_count] assms(3) unfolding closed_def by blast
  then obtain sh where "sh \<in> set ?S" "n \<in> set sh" by auto
  then obtain j where "j < length ?S" "n \<in> set (?S ! j)" by (auto simp: in_set_conv_nth)
  then show ?thesis using distinct_concat_nth[OF shells_inv(1)] by blast
qed

theorem referenced_ids_in_shells_witness:
  "(0::int) \<le> 0 \<and> (0::int) < int 1 \<and> 5 \<in> set (neighbors (fmap_of_list [(0, [5])]) 0)
   \<and> (\<exists>!j. j < length (get_mesh_shells_bfs 1 (fmap_of_list [(0, [5])]))
              \<and> 5 \<in> set (get_mesh_shells_bfs 1 (fmap_of_list [(0, [5])]) ! j))"
proof -
  have h: "5 \<in> set (neighbors (fmap_of_list [(0, [5])]) 0)"
    by (simp add: neighbors_def fmlookup_of_list)
  show ?thesis using h referenced_ids_in_shells[of 0 1 5 "fmap_of_list [(0, [5])]"] by simp
qed

theorem out_of_range_counterexample:
  "get_mesh_shells_bfs 1 (fmap_of_list [(0, [5])]) = [[0, 5]]"
  by (simp add: get_mesh_shells_bfs_def neighbors_def fmlookup_of_list upt_rec)

subsection \<open>Isolated faces\<close>

lemma shells_loop_isolated:
  assumes "neighbors fc i = []" and "i \<notin> Range (adjacent fc)"
  shows "i \<in> set ids \<Longrightarrow> i \<notin> visited \<Longrightarrow> [i] \<in> set (shells_loop fc ids visited [])"
proof (induction ids arbitrary: visited)
  case Nil
  then show ?case by simp
next
  case (Cons a rest)
  show ?case
  proof (cases "a \<in> visited")
    case True
    with Cons.prems have "i \<in> set rest" by auto
    with Cons.IH Cons.prems(2) True show ?thesis by simp
  next
    case False
    from bfs_loop_start[OF False, of fc] obtain new where n:
      "bfs_loop fc [a] visited [] = (visited \<union> set (a # new), a # new)"
      "set (a # new) \<subseteq> (adjacent fc)\<^sup>* `` {a}"
      by blast
    let ?v = "visited \<union> set (a # new)"
    have eq: "shells_loop fc (a # rest) visited [] = (a # new) # shells_loop fc rest ?v []"
      using False n(1) by (rule shells_loop_step)
    show ?thesis
    proof (cases "a = i")
      case True
      have "bfs_loop fc [i] visited [] = (insert i visited, [i])"
        using Cons.prems(2) assms(1) by simp
      with n(1) True have "a # new = [i]" by simp
      then show ?thesis unfolding eq by simp
    next
      case False
      have "i \<notin> set (a # new)"
      proof
        assume "i \<in> set (a # new)"
        with n(2) have "i \<in> (adjacent fc)\<^sup>* `` {a}" by blast
        with reach_range[of fc "{a}"] have "i \<in> {a} \<union> Range (adjacent fc)" by blast
        with False assms(2) show False by simp
      qed
      with Cons.prems False have "i \<in> set rest" "i \<notin> ?v" by auto
      from Cons.IH[OF this] show ?thesis unfolding eq by simp
    qed
  qed
qed

text \<open>
  C5. A face of \<open>[0, face_count)\<close> whose adjacency list is missing or empty, and that is
  in no adjacency list, is a shell by itself: \<open>[i]\<close> is one of the shells, and it is the
  only shell that holds \<open>i\<close>.
\<close>

theorem isolated_face_singleton:
  assumes "0 \<le> i" and "i < int face_count"
    and "neighbors fc i = []" and "i \<notin> Range (adjacent fc)"
  shows "[i] \<in> set (get_mesh_shells_bfs face_count fc)
       \<and> (\<forall>s \<in> set (get_mesh_shells_bfs face_count fc). i \<in> set s \<longrightarrow> s = [i])"
proof -
  let ?S = "get_mesh_shells_bfs face_count fc"
  have "i \<in> set (map int [0..<face_count])"
    using assms(1,2) unfolding set_range_ids by simp
  then have m: "[i] \<in> set ?S"
    unfolding get_mesh_shells_bfs_def
    by (rule shells_loop_isolated[OF assms(3,4)]) simp
  then obtain k where k: "k < length ?S" "?S ! k = [i]" by (auto simp: in_set_conv_nth)
  have "s = [i]" if "s \<in> set ?S" "i \<in> set s" for s
  proof -
    from that(1) obtain j where j: "j < length ?S" "?S ! j = s" by (auto simp: in_set_conv_nth)
    have "j = k"
      using distinct_concat_nth[OF shells_inv(1) j(1) k(1), of i] j(2) k(2) that(2) by simp
    with j k show ?thesis by simp
  qed
  with m show ?thesis by blast
qed

theorem isolated_face_singleton_witness:
  "(0::int) \<le> 2 \<and> (2::int) < int 3
   \<and> neighbors (fmap_of_list [(0, [1]), (1, [0])]) 2 = []
   \<and> 2 \<notin> Range (adjacent (fmap_of_list [(0, [1]), (1, [0])]))
   \<and> [2] \<in> set (get_mesh_shells_bfs 3 (fmap_of_list [(0, [1]), (1, [0])]))"
proof -
  let ?fc = "fmap_of_list [(0, [1]), (1, [0])] :: face_connections"
  have a: "neighbors ?fc 2 = []" by (simp add: neighbors_def fmlookup_of_list)
  have b: "2 \<notin> Range (adjacent ?fc)"
    by (auto simp: adjacent_def neighbors_def fmlookup_of_list split: if_splits)
  show ?thesis using a b isolated_face_singleton[of 2 3 ?fc] by simp
qed

subsection \<open>Determinism\<close>

lemma bfs_loop_cong:
  "\<forall>k. neighbors fc k = neighbors fc' k \<Longrightarrow>
     bfs_loop fc queue visited shell = bfs_loop fc' queue visited shell"
proof (induction fc queue visited shell rule: bfs_loop.induct)
  case (1 fc visited shell)
  show ?case by simp
next
  case (2 fc current queue visited shell)
  show ?case
  proof (cases "current \<in> visited")
    case True
    with 2(1)[OF True 2(3)] show ?thesis by simp
  next
    case False
    from 2(2)[OF False refl refl refl 2(3)] 2(3) False show ?thesis by simp
  qed
qed

lemma shells_loop_cong:
  "\<forall>k. neighbors fc k = neighbors fc' k \<Longrightarrow>
     shells_loop fc ids visited shells = shells_loop fc' ids visited shells"
proof (induction ids arbitrary: visited shells)
  case Nil
  show ?case by simp
next
  case (Cons i rest)
  have "bfs_loop fc [i] visited [] = bfs_loop fc' [i] visited []"
    using Cons.prems by (rule bfs_loop_cong)
  then show ?case using Cons.IH[OF Cons.prems] by (simp only: shells_loop.simps)
qed

text \<open>
  C7. Shell detection is a function of its input: the model reads no state but its
  arguments, the set \<open>visited\<close> is only tested for membership, and its result is fixed by
  \<open>face_count\<close> and by the adjacency list read for each face. Two adjacency maps that give
  the same list for every face (the same map in particular) give the same shells, in
  the same order, with the same order of faces in each.
\<close>

theorem detection_deterministic:
  assumes "\<forall>k. neighbors fc k = neighbors fc' k"
  shows "get_mesh_shells_bfs face_count fc = get_mesh_shells_bfs face_count fc'"
  unfolding get_mesh_shells_bfs_def using assms by (rule shells_loop_cong)

theorem detection_deterministic_witness:
  "(\<forall>k. neighbors (fmap_of_list [(0, [1]), (1, [0]), (2, [])]) k
        = neighbors (fmap_of_list [(1, [0]), (0, [1])]) k)
   \<and> get_mesh_shells_bfs 3 (fmap_of_list [(0, [1]), (1, [0]), (2, [])])
     = get_mesh_shells_bfs 3 (fmap_of_list [(1, [0]), (0, [1])])"
proof -
  have h: "\<forall>k. neighbors (fmap_of_list [(0, [1]), (1, [0]), (2, [])]) k
        = neighbors (fmap_of_list [(1, [0]), (0, [1])]) k"
    by (simp add: neighbors_def fmlookup_of_list)
  show ?thesis using h detection_deterministic[OF h, of 3] by simp
qed

subsection \<open>Concrete runs\<close>

text \<open>
  C6. With \<^verbatim>\<open>face_count == 0\<close> the loop over \<^verbatim>\<open>range(face_count)\<close> has no iteration: for any
  adjacency map the list of shells is empty.
\<close>

theorem no_faces_no_shells: "get_mesh_shells_bfs 0 fc = []"
  by (simp add: get_mesh_shells_bfs_def)

text \<open>
  C8. The scenario of the specification: six faces, \<open>0 - 1 - 2\<close> in a chain, \<open>3 - 4\<close>
  connected, \<open>5\<close> alone. The shells are \<open>[[0,1,2],[3,4],[5]]\<close>.
\<close>

theorem scenario_six_faces:
  "get_mesh_shells_bfs 6
     (fmap_of_list [(0, [1]), (1, [0, 2]), (2, [1]), (3, [4]), (4, [3]), (5, [])])
   = [[0, 1, 2], [3, 4], [5]]"
  by (simp add: get_mesh_shells_bfs_def neighbors_def fmlookup_of_list upt_rec)

section \<open>Properties of material assignment\<close>

text \<open>
  C9. With an empty material list the function raises at its first statement, and the
  scene at the raise is the scene it was called with: no host command has run, whatever
  the host commands are, so no shading group has been created, connected or assigned.
\<close>

theorem empty_material_list_fails:
  "assign_random_materials_from_list h rnd shells [] s
   = Raised (RuntimeError ''Material list is empty.'') s"
  by (simp add: assign_random_materials_from_list_def)

subsection \<open>The loop over the materials\<close>





subsection \<open>The loop over the shells\<close>





text \<open>
  The same call, run: the name that does not exist leaves a warning, and the face of the
  shell is forced into the shading group connected to the material that exists.
\<close>

lemma material_assignment_run:
  "assign_random_materials_from_list scene_cmds (\<lambda>k. 0) [[''pCube1.f[0]'']]
     [''ghost'', ''lambert1'']
     \<lparr>nodes = [''lambert1''], engines = [(''lambert1'', ''initialShadingGroup'')],
      members = [], warnings = []\<rparr>
   = Returned
     \<lparr>nodes = [''lambert1''], engines = [(''lambert1'', ''initialShadingGroup'')],
      members = [(''pCube1.f[0]'', ''initialShadingGroup'')],
      warnings = [''Material does not exist: ghost'']\<rparr>"
  by (simp add: assign_random_materials_from_list_def scene_cmds_def random_choice_def)

end
